theory Spec2Isabelle
  imports Complex_Main "HOL-Library.Multiset"
begin

section \<open>The card trick of App.tsx: data model\<close>

text \<open>
  The TypeScript interface \<^verbatim>\<open>Card\<close> has the fields \<^verbatim>\<open>suit: string\<close>,
  \<^verbatim>\<open>value: number\<close> and \<^verbatim>\<open>image: string\<close>. The program only ever stores the loop
  counter \<^verbatim>\<open>1..13\<close> in \<^verbatim>\<open>value\<close>, so the field is an integer here.

  Card objects are created in one place only (the \<^verbatim>\<open>push\<close> of the deck effect), are never
  mutated, and every other array holds references to those objects. An object is therefore
  identified with its field values, and \<^verbatim>\<open>item.card === card\<close> is equality of records.
\<close>

record Card =
  suit :: string
  "value" :: int
  image :: string

datatype GamePhase = selection | reordered

text \<open>
  A JavaScript \<^verbatim>\<open>number\<close> that is an integer or \<^verbatim>\<open>NaN\<close>: \<open>None\<close> is \<^verbatim>\<open>NaN\<close>.
\<close>

type_synonym jsnum = "int option"

definition num_sub :: "jsnum \<Rightarrow> jsnum \<Rightarrow> jsnum" where
  "num_sub a b = (case a of None \<Rightarrow> None | Some x \<Rightarrow> (case b of None \<Rightarrow> None | Some y \<Rightarrow> Some (x - y)))"

section \<open>getCardNumber\<close>

text \<open>
  \<^verbatim>\<open>suitOrder\<close> is an object literal used as a table. A suit that is not one of its four
  keys reads \<^verbatim>\<open>undefined\<close> (or an inherited property), and the product with 13 is
  \<^verbatim>\<open>NaN\<close>, which the sum keeps.
\<close>

definition suitOrder :: "string \<rightharpoonup> int" where
  "suitOrder = map_of [(''spades'', 0), (''clubs'', 1), (''hearts'', 2), (''diamonds'', 3)]"

definition getCardNumber :: "Card \<Rightarrow> jsnum" where
  "getCardNumber c =
     (case suitOrder (suit c) of None \<Rightarrow> None | Some k \<Rightarrow> Some (value c + k * 13))"

section \<open>Array.prototype.sort and findIndex\<close>

text \<open>
  \<^verbatim>\<open>xs.sort(cmp)\<close> is modelled as an insertion sort that asks the comparator where each
  element goes: the element is put before the first one it does not compare greater than.
  A comparator result of \<^verbatim>\<open>NaN\<close> counts as \<open>0\<close>, as the language prescribes. For a
  comparator that orders by a key, every stable sort returns the same array as this one.
\<close>

definition cmp_le0 :: "jsnum \<Rightarrow> bool" where
  "cmp_le0 v = (case v of None \<Rightarrow> True | Some d \<Rightarrow> d \<le> 0)"

fun js_insert :: "('a \<Rightarrow> 'a \<Rightarrow> jsnum) \<Rightarrow> 'a \<Rightarrow> 'a list \<Rightarrow> 'a list" where
  "js_insert cmp a [] = [a]"
| "js_insert cmp a (b # bs) =
     (if cmp_le0 (cmp a b) then a # b # bs else b # js_insert cmp a bs)"

fun js_sort :: "('a \<Rightarrow> 'a \<Rightarrow> jsnum) \<Rightarrow> 'a list \<Rightarrow> 'a list" where
  "js_sort cmp [] = []"
| "js_sort cmp (a # as) = js_insert cmp a (js_sort cmp as)"

text \<open>\<^verbatim>\<open>findIndex\<close>: the first index whose element satisfies the predicate, or \<open>-1\<close>.\<close>

fun findIndex_from :: "int \<Rightarrow> ('a \<Rightarrow> bool) \<Rightarrow> 'a list \<Rightarrow> int" where
  "findIndex_from k p [] = - 1"
| "findIndex_from k p (x # xs) = (if p x then k else findIndex_from (k + 1) p xs)"

definition findIndex :: "('a \<Rightarrow> bool) \<Rightarrow> 'a list \<Rightarrow> int" where
  "findIndex p xs = findIndex_from 0 p xs"

section \<open>factorial and getPermutationNumber\<close>

function factorial :: "int \<Rightarrow> int" where
  "factorial n = (if n \<le> 1 then 1 else n * factorial (n - 1))"
  by pat_completeness auto
termination
  by (relation "measure (\<lambda>n. nat n)") auto

declare factorial.simps [simp del]

text \<open>
  The anonymous objects \<^verbatim>\<open>{card, number, originalIndex}\<close> are triples. \<^verbatim>\<open>sorted\<close> and
  \<^verbatim>\<open>originalOrder\<close> are the two arrays the function builds before its loop.
\<close>

type_synonym CardData = "Card \<times> jsnum \<times> nat"

definition cardData_of :: "Card list \<Rightarrow> CardData list" where
  "cardData_of cards = map (\<lambda>(idx, c). (c, getCardNumber c, idx)) (enumerate 0 cards)"

definition by_number :: "CardData \<Rightarrow> CardData \<Rightarrow> jsnum" where
  "by_number a b = num_sub (fst (snd a)) (fst (snd b))"

definition sorted_data :: "Card list \<Rightarrow> CardData list" where
  "sorted_data cards = js_sort by_number (cardData_of cards)"

definition originalOrder :: "Card list \<Rightarrow> int list" where
  "originalOrder cards = map (\<lambda>c. findIndex (\<lambda>item. fst item = c) (sorted_data cards)) cards"

text \<open>
  The inner loop \<^verbatim>\<open>for (let j = 0; j < value; j++) if (!used[j]) count++\<close>. The indices
  read are below \<^verbatim>\<open>value\<close>, which is a result of \<^verbatim>\<open>findIndex\<close> on a four-element array,
  hence at most 3: every read is inside the four-element array \<^verbatim>\<open>used\<close>.
\<close>

definition count_unused :: "bool list \<Rightarrow> int \<Rightarrow> int" where
  "count_unused used v = fold (\<lambda>j count. if \<not> used ! j then count + 1 else count) [0..<nat v] 0"

text \<open>
  \<^verbatim>\<open>used[value] = true\<close>: an index from 0 to 3 updates the array; \<open>-1\<close> would set a
  property that is not an element and leave the four elements as they are.
\<close>

definition mark_used :: "bool list \<Rightarrow> int \<Rightarrow> bool list" where
  "mark_used used v = (if 0 \<le> v then used[nat v := True] else used)"

text \<open>
  One pass of the outer loop body at index \<open>i\<close>, on the pair of \<^verbatim>\<open>permNumber\<close> and
  \<^verbatim>\<open>used\<close>; \<^verbatim>\<open>originalOrder\<close> has one entry per card, so \<open>i < 4\<close> is in range.
\<close>

definition lehmer_body :: "int list \<Rightarrow> nat \<Rightarrow> int \<times> bool list \<Rightarrow> int \<times> bool list" where
  "lehmer_body order i st =
     (let v = order ! i;
          count = count_unused (snd st) v
      in (fst st + count * factorial (3 - int i), mark_used (snd st) v))"

definition lehmer_rank :: "int list \<Rightarrow> int" where
  "lehmer_rank order = fst (fold (lehmer_body order) [0..<4] (1, [False, False, False, False]))"

definition getPermutationNumber :: "Card list \<Rightarrow> int" where
  "getPermutationNumber cards =
     (if length cards \<noteq> 4 then 0 else lehmer_rank (originalOrder cards))"

text \<open>
  The counts the loop adds up, in the order it computes them (the loop itself does not
  store them): the same passes as \<open>lehmer_body\<close>, keeping each \<^verbatim>\<open>count\<close>.
\<close>

fun lehmer_counts_from :: "int list \<Rightarrow> bool list \<Rightarrow> nat list \<Rightarrow> int list" where
  "lehmer_counts_from order used [] = []"
| "lehmer_counts_from order used (i # is) =
     count_unused used (order ! i) # lehmer_counts_from order (mark_used used (order ! i)) is"

definition lehmer_counts :: "int list \<Rightarrow> int list" where
  "lehmer_counts order = lehmer_counts_from order [False, False, False, False] [0..<4]"

section \<open>The deck: generation and the random comparator\<close>

text \<open>
  \<^verbatim>\<open>value.toString().padStart(2, '0')\<close> for the loop counter: decimal digits, padded on
  the left to two characters.
\<close>

definition digit_char :: "nat \<Rightarrow> char" where
  "digit_char d = ''0123456789'' ! d"

fun toString :: "nat \<Rightarrow> string" where
  "toString n = (if n < 10 then [digit_char n] else toString (n div 10) @ [digit_char (n mod 10)])"

declare toString.simps [simp del]

definition padStart :: "nat \<Rightarrow> char \<Rightarrow> string \<Rightarrow> string" where
  "padStart n c str = replicate (n - length str) c @ str"

definition suits :: "string list" where
  "suits = [''clubs'', ''diamonds'', ''hearts'', ''spades'']"

definition imagePath_of :: "string \<Rightarrow> nat \<Rightarrow> string" where
  "imagePath_of s i = ''./assets/'' @ (s @ padStart 2 CHR ''0'' (toString i) @ ''.png'')"

text \<open>
  \<^verbatim>\<open>cardImages\<close> is what \<^verbatim>\<open>import.meta.glob\<close> found in the assets directory: a table
  from path to url, a parameter here. The loop body pushes a card only when the table has a
  truthy entry for its path (an absent entry and the empty string are falsy).
\<close>

definition push_card :: "(string \<rightharpoonup> string) \<Rightarrow> string \<Rightarrow> nat \<Rightarrow> Card list \<Rightarrow> Card list" where
  "push_card cardImages s i cards =
     (case cardImages (imagePath_of s i) of
        None \<Rightarrow> cards
      | Some url \<Rightarrow>
          if url = [] then cards
          else cards @ [\<lparr>suit = s, value = int i, image = url\<rparr>])"

definition generate_cards :: "(string \<rightharpoonup> string) \<Rightarrow> Card list" where
  "generate_cards cardImages = fold (\<lambda>s. fold (push_card cardImages s) [1..<14]) suits []"

text \<open>
  \<^verbatim>\<open>Math.random()\<close> reads the next sample of a source: the samples and the number of
  calls made so far. The comparator \<^verbatim>\<open>() => Math.random() - 0.5\<close> ignores its arguments.
\<close>

type_synonym rng = "(nat \<Rightarrow> real) \<times> nat"

definition math_random :: "rng \<Rightarrow> real \<times> rng" where
  "math_random g = (fst g (snd g), (fst g, Suc (snd g)))"

definition random_cmp :: "rng \<Rightarrow> real \<times> rng" where
  "random_cmp g = (let (r, g') = math_random g in (r - 0.5, g'))"

text \<open>
  \<^verbatim>\<open>Array.prototype.sort\<close> called with this comparator is not code of the repository: the
  engine that runs the program provides it, and for a comparator that is not consistent the
  language leaves the resulting order to the engine. It is a parameter of the deck effect
  and of \<^verbatim>\<open>handleReset\<close>: given the comparator, the array and the random source, it
  returns the array after the sort and the source after the comparator's calls.
\<close>

type_synonym 'a array_sort = "(rng \<Rightarrow> real \<times> rng) \<Rightarrow> 'a list \<Rightarrow> rng \<Rightarrow> 'a list \<times> rng"

section \<open>The component state and its handlers\<close>

record AppState =
  deck :: "Card list"
  selectedCards :: "Card list"
  reorderedCards :: "Card list"
  gamePhase :: GamePhase
  isLoading :: bool
  showHiddenCard :: bool

definition initial_state :: AppState where
  "initial_state = \<lparr>deck = [], selectedCards = [], reorderedCards = [],
     gamePhase = selection, isLoading = True, showHiddenCard = False\<rparr>"

text \<open>The effect that runs once after the first render.\<close>

definition deck_effect ::
  "Card array_sort \<Rightarrow> (string \<rightharpoonup> string) \<Rightarrow> AppState \<Rightarrow> rng \<Rightarrow> AppState \<times> rng" where
  "deck_effect sort_array cardImages s g =
     (let cards = generate_cards cardImages;
          (shuffled, g') = sort_array random_cmp cards g
      in (s\<lparr>deck := shuffled, isLoading := False\<rparr>, g'))"

definition handleCardClick :: "Card \<Rightarrow> AppState \<Rightarrow> AppState" where
  "handleCardClick c s =
     (if gamePhase s \<noteq> selection then s
      else if length (selectedCards s) \<ge> 5 then s
      else if list_ex (\<lambda>c'. suit c' = suit c \<and> value c' = value c) (selectedCards s) then s
      else s\<lparr>selectedCards := selectedCards s @ [c]\<rparr>)"

definition handleReorder :: "AppState \<Rightarrow> AppState" where
  "handleReorder s =
     (if length (selectedCards s) \<noteq> 5 then s
      else
        let firstFour = take 4 (selectedCards s);
            fifthCard = selectedCards s ! 4;
            cardNumbers = map (\<lambda>c. (c, getCardNumber c)) firstFour;
            sorted_numbers = js_sort (\<lambda>a b. num_sub (snd a) (snd b)) cardNumbers;
            sortedCards = map fst sorted_numbers;
            permNumber = getPermutationNumber firstFour
        in s\<lparr>reorderedCards := fifthCard # sortedCards,
              gamePhase := reordered,
              showHiddenCard := False\<rparr>)"

definition handleReset :: "Card array_sort \<Rightarrow> AppState \<Rightarrow> rng \<Rightarrow> AppState \<times> rng" where
  "handleReset sort_array s g =
     (let (shuffled, g') = sort_array random_cmp (deck s) g
      in (s\<lparr>selectedCards := [], reorderedCards := [], gamePhase := selection,
             showHiddenCard := False, deck := shuffled\<rparr>, g'))"

text \<open>The \<^verbatim>\<open>onClick\<close> of the toggle button: \<^verbatim>\<open>setShowHiddenCard(!showHiddenCard)\<close>.\<close>

definition toggleReveal :: "AppState \<Rightarrow> AppState" where
  "toggleReveal s = s\<lparr>showHiddenCard := \<not> showHiddenCard s\<rparr>"

section \<open>Notions of the specification\<close>

text \<open>
  The identity id as an integer, for cards whose suit is in the table; a legal card has
  one of the four suits and a value from 1 to 13; two cards are the same identity when suit
  and value agree.
\<close>

definition card_id :: "Card \<Rightarrow> int" where
  "card_id c = the (getCardNumber c)"

definition legal_card :: "Card \<Rightarrow> bool" where
  "legal_card c = (suit c \<in> set suits \<and> 1 \<le> value c \<and> value c \<le> 13)"

definition identity :: "Card \<Rightarrow> string \<times> int" where
  "identity c = (suit c, value c)"

text \<open>
  The suit order of the specification, Spades < Clubs < Hearts < Diamonds, and the ordinal of
  a suit in it, written from the specification's words to compare with \<open>suitOrder\<close>.
\<close>

definition spec_suit_order :: "string list" where
  "spec_suit_order = [''spades'', ''clubs'', ''hearts'', ''diamonds'']"

fun position_in :: "'a list \<Rightarrow> 'a \<Rightarrow> int" where
  "position_in [] x = 0"
| "position_in (y # ys) x = (if x = y then 0 else 1 + position_in ys x)"

definition spec_ordinal :: "string \<Rightarrow> int" where
  "spec_ordinal s = position_in spec_suit_order s"

text \<open>
  Modelled from the spec: the repository has no unrank operation; this one follows section
  4.3 of the specification. The rank minus one is divided by descending factorials to
  recover each count, and each slot takes the count-th smallest canonical position not used
  yet; the positions then select from the canonical order. A rank outside 1..n! is the
  error \<open>OutOfRange\<close>.
\<close>

datatype codec_error = OutOfRange

fun unrank_positions :: "nat \<Rightarrow> int \<Rightarrow> nat list \<Rightarrow> nat list" where
  "unrank_positions 0 q unused = []"
| "unrank_positions (Suc n) q unused =
     (let f = factorial (int n);
          count = nat (q div f)
      in unused ! count #
         unrank_positions n (q mod f) (take count unused @ drop (Suc count) unused))"

definition unrank :: "int \<Rightarrow> 'a list \<Rightarrow> codec_error + 'a list" where
  "unrank r C =
     (if 1 \<le> r \<and> r \<le> factorial (int (length C))
      then Inr (map (\<lambda>p. C ! p) (unrank_positions (length C) (r - 1) [0..<length C]))
      else Inl OutOfRange)"

text \<open>
  A canonical 4-set: four cards with ids, in strictly ascending order of id.
\<close>

definition canonical4 :: "Card list \<Rightarrow> bool" where
  "canonical4 C = (length C = 4 \<and> list_all (\<lambda>c. getCardNumber c \<noteq> None) C \<and>
                   sorted_wrt (<) (map card_id C))"

text \<open>
  Whether the table of images has a truthy entry for a suit and a value, the card the loop
  body pushes in that case, and all 52 pairs of suit and value in the order of the two
  nested loops.
\<close>

definition has_image :: "(string \<rightharpoonup> string) \<Rightarrow> string \<Rightarrow> nat \<Rightarrow> bool" where
  "has_image cardImages s i =
     (case cardImages (imagePath_of s i) of None \<Rightarrow> False | Some url \<Rightarrow> url \<noteq> [])"

definition one_card :: "(string \<rightharpoonup> string) \<Rightarrow> string \<Rightarrow> nat \<Rightarrow> Card list" where
  "one_card cardImages s i =
     (if has_image cardImages s i
      then [\<lparr>suit = s, value = int i, image = the (cardImages (imagePath_of s i))\<rparr>] else [])"

definition all_pairs :: "(string \<times> int) list" where
  "all_pairs = concat (map (\<lambda>s. map (\<lambda>i. (s, int i)) [1..<14]) suits)"

text \<open>The 24 orderings of the positions 0 to 3, in the order of their ranks.\<close>

definition perms4 :: "int list list" where
  "perms4 =
    [[0,1,2,3],[0,1,3,2],[0,2,1,3],[0,2,3,1],[0,3,1,2],[0,3,2,1],
     [1,0,2,3],[1,0,3,2],[1,2,0,3],[1,2,3,0],[1,3,0,2],[1,3,2,0],
     [2,0,1,3],[2,0,3,1],[2,1,0,3],[2,1,3,0],[2,3,0,1],[2,3,1,0],
     [3,0,1,2],[3,0,2,1],[3,1,0,2],[3,1,2,0],[3,2,0,1],[3,2,1,0]]"

section \<open>Evaluation on concrete inputs\<close>

lemma upt4: "[0..<4] = [0, 1, 2, 3]"
  by (simp add: upt_rec)

lemma factorial_values:
  "factorial 0 = 1" "factorial 1 = 1" "factorial 2 = 2" "factorial 3 = 6"
  by (simp_all add: factorial.simps)

lemma getCardNumber_simps:
  "getCardNumber \<lparr>suit = ''spades'', value = v, image = i\<rparr> = Some v"
  "getCardNumber \<lparr>suit = ''clubs'', value = v, image = i\<rparr> = Some (v + 13)"
  "getCardNumber \<lparr>suit = ''hearts'', value = v, image = i\<rparr> = Some (v + 26)"
  "getCardNumber \<lparr>suit = ''diamonds'', value = v, image = i\<rparr> = Some (v + 39)"
  by (simp_all add: getCardNumber_def suitOrder_def)


section \<open>The sort by card number is the stable sort by key\<close>

lemma cmp_le0_num_sub: "cmp_le0 (num_sub (Some x) (Some y)) = (x \<le> y)"
  by (simp add: cmp_le0_def num_sub_def)

lemma js_insert_keyed:
  assumes "k a \<noteq> None" "\<forall>b\<in>set bs. k b \<noteq> None"
  shows "js_insert (\<lambda>a b. num_sub (k a) (k b)) a bs = insort_key (\<lambda>x. the (k x)) a bs"
  using assms by (induction bs) (auto simp: cmp_le0_num_sub)

lemma js_sort_keyed:
  assumes "\<forall>b\<in>set bs. k b \<noteq> None"
  shows "js_sort (\<lambda>a b. num_sub (k a) (k b)) bs = sort_key (\<lambda>x. the (k x)) bs"
  using assms by (induction bs) (auto simp: js_insert_keyed)

lemma map_insort_key:
  assumes "\<forall>x\<in>set (a # xs). kk x = g (f x)"
  shows "map f (insort_key kk a xs) = insort_key g (f a) (map f xs)"
  using assms by (induction xs) auto

lemma map_sort_key:
  assumes "\<forall>x\<in>set xs. kk x = g (f x)"
  shows "map f (sort_key kk xs) = sort_key g (map f xs)"
  using assms
proof (induction xs)
  case Nil then show ?case by simp
next
  case (Cons a xs)
  have "map f (insort_key kk a (sort_key kk xs)) = insort_key g (f a) (map f (sort_key kk xs))"
    using Cons.prems by (intro map_insort_key) simp
  with Cons show ?case by simp
qed

lemma map_fst_cardData_aux:
  "map (\<lambda>x. fst (case x of (idx, c) \<Rightarrow> (c, getCardNumber c, idx))) (enumerate n cards) = cards"
  by (induction cards arbitrary: n) auto

lemma map_fst_cardData: "map fst (cardData_of cards) = cards"
  by (simp add: cardData_of_def comp_def map_fst_cardData_aux)

lemma cardData_number:
  "x \<in> set (cardData_of cards) \<Longrightarrow> fst (snd x) = getCardNumber (fst x)"
  by (auto simp: cardData_of_def)

lemma cardData_fst_in: "x \<in> set (cardData_of cards) \<Longrightarrow> fst x \<in> set cards"
  using map_fst_cardData [of cards] by (metis image_eqI list.set_map)

lemma map_fst_sorted_data:
  assumes "\<forall>c\<in>set cards. getCardNumber c \<noteq> None"
  shows "map fst (sorted_data cards) = sort_key card_id cards"
proof -
  have valid: "\<forall>b\<in>set (cardData_of cards). fst (snd b) \<noteq> None"
    using assms cardData_number cardData_fst_in by metis
  have "by_number = (\<lambda>a b. num_sub (fst (snd a)) (fst (snd b)))"
    by (intro ext) (simp add: by_number_def)
  then have "sorted_data cards = sort_key (\<lambda>x. the (fst (snd x))) (cardData_of cards)"
    using js_sort_keyed [of "cardData_of cards" "\<lambda>x. fst (snd x)"] valid
    by (simp add: sorted_data_def)
  moreover have "map fst (sort_key (\<lambda>x. the (fst (snd x))) (cardData_of cards))
      = sort_key card_id (map fst (cardData_of cards))"
    by (rule map_sort_key) (simp add: cardData_number card_id_def)
  ultimately show ?thesis by (simp add: map_fst_cardData)
qed

lemma findIndex_from_map: "findIndex_from k (\<lambda>x. p (f x)) xs = findIndex_from k p (map f xs)"
  by (induction xs arbitrary: k) auto

lemma findIndex_from_nth:
  assumes "distinct xs" "i < length xs"
  shows "findIndex_from k (\<lambda>x. x = xs ! i) xs = k + int i"
  using assms
proof (induction xs arbitrary: k i)
  case Nil then show ?case by simp
next
  case (Cons a xs)
  show ?case
  proof (cases i)
    case 0 then show ?thesis by simp
  next
    case (Suc j)
    with Cons.prems have "xs ! j \<noteq> a" "distinct xs" "j < length xs" by auto
    with Cons.IH [of j "k + 1"] Suc show ?thesis by simp
  qed
qed

lemma findIndex_nth:
  "distinct xs \<Longrightarrow> i < length xs \<Longrightarrow> findIndex (\<lambda>x. x = xs ! i) xs = int i"
  by (simp add: findIndex_def findIndex_from_nth)

lemma originalOrder_canon:
  assumes "\<forall>c\<in>set cards. getCardNumber c \<noteq> None"
  shows "originalOrder cards = map (\<lambda>c. findIndex (\<lambda>x. x = c) (sort_key card_id cards)) cards"
  using map_fst_sorted_data [OF assms]
  by (simp add: originalOrder_def findIndex_def findIndex_from_map [of _ "\<lambda>x. x = c" fst for c])

section \<open>The rank of each of the 24 position orders\<close>

lemma lehmer_rank_row:
  "lehmer_rank [a, b, c, d] =
     1 + count_unused [False, False, False, False] a * 6
       + count_unused (mark_used [False, False, False, False] a) b * 2
       + count_unused (mark_used (mark_used [False, False, False, False] a) b) c
       + count_unused (mark_used (mark_used (mark_used [False, False, False, False] a) b) c) d"
  by (simp add: lehmer_rank_def upt4 lehmer_body_def factorial_values)

lemma count_unused_values:
  "count_unused [x0, x1, x2, x3] 0 = 0"
  "count_unused [x0, x1, x2, x3] 1 = (if x0 then 0 else 1)"
  "count_unused [x0, x1, x2, x3] 2 = (if x0 then 0 else 1) + (if x1 then 0 else 1)"
  "count_unused [x0, x1, x2, x3] 3 = (if x0 then 0 else 1) + (if x1 then 0 else 1) + (if x2 then 0 else 1)"
  by (simp_all add: count_unused_def upt_rec)

lemma mark_used_values:
  "mark_used [x0, x1, x2, x3] 0 = [True, x1, x2, x3]"
  "mark_used [x0, x1, x2, x3] 1 = [x0, True, x2, x3]"
  "mark_used [x0, x1, x2, x3] 2 = [x0, x1, True, x3]"
  "mark_used [x0, x1, x2, x3] 3 = [x0, x1, x2, True]"
  by (simp_all add: mark_used_def)

lemma lehmer_rank_table:
  "map lehmer_rank perms4 = [1,2,3,4,5,6,7,8,9,10,11,12,13,14,15,16,17,18,19,20,21,22,23,24]"
  by (simp add: perms4_def lehmer_rank_row count_unused_values mark_used_values)

lemma findIndex_member:
  assumes "distinct xs" "c \<in> set xs"
  shows "0 \<le> findIndex (\<lambda>x. x = c) xs \<and> findIndex (\<lambda>x. x = c) xs < int (length xs)
         \<and> xs ! nat (findIndex (\<lambda>x. x = c) xs) = c"
proof -
  from assms(2) obtain i where i: "i < length xs" "xs ! i = c"
    by (auto simp: in_set_conv_nth)
  with findIndex_nth [OF assms(1) i(1)] show ?thesis by simp
qed

lemma in_perms4:
  assumes "length P = 4" "distinct P" "\<forall>p\<in>set P. 0 \<le> p \<and> p < 4"
  shows "P \<in> set perms4"
proof -
  from assms(1) obtain a b c d where P: "P = [a, b, c, d]"
    by (auto simp: length_Suc_conv numeral_eq_Suc)
  have r: "\<And>p::int. 0 \<le> p \<and> p < 4 \<Longrightarrow> p = 0 \<or> p = 1 \<or> p = 2 \<or> p = 3" by arith
  from assms(3) P have "a = 0 \<or> a = 1 \<or> a = 2 \<or> a = 3" "b = 0 \<or> b = 1 \<or> b = 2 \<or> b = 3"
    "c = 0 \<or> c = 1 \<or> c = 2 \<or> c = 3" "d = 0 \<or> d = 1 \<or> d = 2 \<or> d = 3"
    by (simp_all add: r)
  then show ?thesis
    using assms(2) unfolding P perms4_def by (elim disjE) simp_all
qed

lemma lehmer_rank_range:
  assumes "P \<in> set perms4"
  shows "1 \<le> lehmer_rank P \<and> lehmer_rank P \<le> 24"
proof -
  from assms have "lehmer_rank P \<in> set (map lehmer_rank perms4)" by simp
  then show ?thesis unfolding lehmer_rank_table by auto
qed

lemma lehmer_rank_inj: "inj_on lehmer_rank (set perms4)"
proof -
  have "distinct (map lehmer_rank perms4)" unfolding lehmer_rank_table by simp
  then show ?thesis by (simp add: distinct_map)
qed

lemma canon_props:
  assumes "distinct (map getCardNumber cards)"
  shows "distinct (sort_key card_id cards)" "set (sort_key card_id cards) = set cards"
    "length (sort_key card_id cards) = length cards"
  using assms by (simp_all add: distinct_map)

lemma originalOrder_props:
  assumes len: "length cards = 4"
    and valid: "\<forall>c\<in>set cards. getCardNumber c \<noteq> None"
    and dist: "distinct (map getCardNumber cards)"
  shows "originalOrder cards \<in> set perms4"
    and "map (\<lambda>p. sort_key card_id cards ! nat p) (originalOrder cards) = cards"
proof -
  let ?S = "sort_key card_id cards"
  let ?ix = "\<lambda>c. findIndex (\<lambda>x. x = c) ?S"
  have oo: "originalOrder cards = map ?ix cards"
    by (rule originalOrder_canon [OF valid])
  have dS: "distinct ?S" and sS: "set ?S = set cards" and lS: "length ?S = 4"
    using canon_props [OF dist] len by simp_all
  have ix: "0 \<le> ?ix c \<and> ?ix c < 4 \<and> ?S ! nat (?ix c) = c" if "c \<in> set cards" for c
    using findIndex_member [OF dS, of c] that sS lS by simp
  show "map (\<lambda>p. ?S ! nat p) (originalOrder cards) = cards"
    unfolding oo by (simp add: comp_def ix map_idI)
  have "inj_on ?ix (set cards)"
    by (rule inj_onI) (metis ix)
  moreover have "distinct cards" using dist by (simp add: distinct_map)
  ultimately have "distinct (originalOrder cards)"
    unfolding oo by (simp add: distinct_map)
  moreover have "\<forall>p\<in>set (originalOrder cards). 0 \<le> p \<and> p < 4"
    unfolding oo using ix by auto
  moreover have "length (originalOrder cards) = 4"
    unfolding oo using len by simp
  ultimately show "originalOrder cards \<in> set perms4"
    by (intro in_perms4)
qed

lemma filter_same_key:
  assumes "distinct (map f zs)" "k \<in> set zs"
  shows "filter (\<lambda>x. f k = f x) zs = [k]"
  using assms
proof (induction zs)
  case Nil then show ?case by simp
next
  case (Cons z zs)
  show ?case
  proof (cases "k = z")
    case True
    with Cons.prems have "\<forall>x\<in>set zs. f k \<noteq> f x" by auto
    then have "filter (\<lambda>x. f k = f x) zs = []" by (simp add: filter_empty_conv)
    with True show ?thesis by simp
  next
    case False
    with Cons.prems have "k \<in> set zs" by simp
    moreover from this Cons.prems have "f k \<noteq> f z" by (metis distinct.simps(2) imageI list.simps(9) list.set_map)
    moreover from Cons.prems have "distinct (map f zs)" by simp
    ultimately have "k \<in> set zs" "f k \<noteq> f z" "distinct (map f zs)" .
    with Cons.IH show ?thesis by simp
  qed
qed

lemma distinct_card_id:
  assumes "\<forall>c\<in>set cards. getCardNumber c \<noteq> None" "distinct (map getCardNumber cards)"
  shows "distinct (map card_id cards)"
proof -
  have "inj_on card_id (set cards)"
  proof (rule inj_onI)
    fix x y assume "x \<in> set cards" "y \<in> set cards" "card_id x = card_id y"
    with assms(1) have "getCardNumber x = getCardNumber y"
      unfolding card_id_def by (metis option.collapse)
    with assms(2) \<open>x \<in> set cards\<close> \<open>y \<in> set cards\<close> show "x = y"
      by (auto simp: distinct_map dest: inj_onD)
  qed
  with assms(2) show ?thesis by (simp add: distinct_map)
qed


lemma canon_of_permutation:
  assumes "mset xs = mset ys" "distinct (map f ys)"
  shows "sort_key f xs = sort_key f ys"
proof (rule properties_for_sort_key)
  show "mset (sort_key f ys) = mset xs" using assms(1) by simp
  show "sorted (map f (sort_key f ys))" by simp
  fix k assume k: "k \<in> set (sort_key f ys)"
  have "mset (map f xs) = mset (map f ys)" using assms(1) by simp
  with assms(2) have dx: "distinct (map f xs)"
    by (metis mset_eq_imp_distinct_iff)
  have "mset (map f (sort_key f ys)) = mset (map f ys)" by simp
  with assms(2) have ds: "distinct (map f (sort_key f ys))"
    by (metis mset_eq_imp_distinct_iff)
  have "k \<in> set xs" using k assms(1) by (metis mset_eq_setD set_sort)
  with dx ds k show "filter (\<lambda>x. f k = f x) (sort_key f ys) = filter (\<lambda>x. f k = f x) xs"
    by (simp add: filter_same_key)
qed

section \<open>Claims about getPermutationNumber\<close>

text \<open>
  C1. For four cards with distinct identity ids, in any order, the permutation number is
  between 1 and 24, and no other ordering of the same four cards has the same number.
\<close>

theorem getPermutationNumber_range_injective:
  assumes len: "length cards = 4"
    and valid: "\<forall>c\<in>set cards. getCardNumber c \<noteq> None"
    and dist: "distinct (map getCardNumber cards)"
  shows "1 \<le> getPermutationNumber cards \<and> getPermutationNumber cards \<le> 24 \<and>
         (\<forall>other. mset other = mset cards \<and>
                  getPermutationNumber other = getPermutationNumber cards \<longrightarrow> other = cards)"
proof -
  have P: "originalOrder cards \<in> set perms4"
    and bk: "map (\<lambda>p. sort_key card_id cards ! nat p) (originalOrder cards) = cards"
    using originalOrder_props [OF len valid dist] by simp_all
  have rk: "getPermutationNumber cards = lehmer_rank (originalOrder cards)"
    using len by (simp add: getPermutationNumber_def)
  have rng: "1 \<le> getPermutationNumber cards \<and> getPermutationNumber cards \<le> 24"
    unfolding rk using lehmer_rank_range [OF P] .
  have inj: "other = cards"
    if m: "mset other = mset cards"
      and e: "getPermutationNumber other = getPermutationNumber cards" for other
  proof -
    have len': "length other = 4" using m len by (metis size_mset)
    have set': "set other = set cards" using m by (metis mset_eq_setD)
    have valid': "\<forall>c\<in>set other. getCardNumber c \<noteq> None" using valid set' by simp
    have "mset (map getCardNumber other) = mset (map getCardNumber cards)" using m by simp
    with dist have dist': "distinct (map getCardNumber other)"
      by (metis mset_eq_imp_distinct_iff)
    have P': "originalOrder other \<in> set perms4"
      and bk': "map (\<lambda>p. sort_key card_id other ! nat p) (originalOrder other) = other"
      using originalOrder_props [OF len' valid' dist'] by simp_all
    have S: "sort_key card_id other = sort_key card_id cards"
      using canon_of_permutation [OF m distinct_card_id [OF valid dist]] .
    have "lehmer_rank (originalOrder other) = lehmer_rank (originalOrder cards)"
      using e len len' by (simp add: getPermutationNumber_def)
    with P P' have "originalOrder other = originalOrder cards"
      using lehmer_rank_inj by (auto dest: inj_onD)
    with bk bk' S show ?thesis by simp
  qed
  from rng inj show ?thesis by blast
qed

theorem getPermutationNumber_range_injective_witness:
  "length [\<lparr>suit = ''diamonds'', value = 7, image = ''d07''\<rparr>,
           \<lparr>suit = ''spades'', value = 12, image = ''s12''\<rparr>,
           \<lparr>suit = ''clubs'', value = 3, image = ''c03''\<rparr>,
           \<lparr>suit = ''hearts'', value = 2, image = ''h02''\<rparr>] = 4 \<and>
   distinct (map getCardNumber
          [\<lparr>suit = ''diamonds'', value = 7, image = ''d07''\<rparr>,
           \<lparr>suit = ''spades'', value = 12, image = ''s12''\<rparr>,
           \<lparr>suit = ''clubs'', value = 3, image = ''c03''\<rparr>,
           \<lparr>suit = ''hearts'', value = 2, image = ''h02''\<rparr>]) \<and>
   1 \<le> getPermutationNumber
          [\<lparr>suit = ''diamonds'', value = 7, image = ''d07''\<rparr>,
           \<lparr>suit = ''spades'', value = 12, image = ''s12''\<rparr>,
           \<lparr>suit = ''clubs'', value = 3, image = ''c03''\<rparr>,
           \<lparr>suit = ''hearts'', value = 2, image = ''h02''\<rparr>] \<and>
   getPermutationNumber
          [\<lparr>suit = ''diamonds'', value = 7, image = ''d07''\<rparr>,
           \<lparr>suit = ''spades'', value = 12, image = ''s12''\<rparr>,
           \<lparr>suit = ''clubs'', value = 3, image = ''c03''\<rparr>,
           \<lparr>suit = ''hearts'', value = 2, image = ''h02''\<rparr>] \<le> 24 \<and>
   getPermutationNumber
          [\<lparr>suit = ''spades'', value = 12, image = ''s12''\<rparr>,
           \<lparr>suit = ''diamonds'', value = 7, image = ''d07''\<rparr>,
           \<lparr>suit = ''clubs'', value = 3, image = ''c03''\<rparr>,
           \<lparr>suit = ''hearts'', value = 2, image = ''h02''\<rparr>] \<noteq>
   getPermutationNumber
          [\<lparr>suit = ''diamonds'', value = 7, image = ''d07''\<rparr>,
           \<lparr>suit = ''spades'', value = 12, image = ''s12''\<rparr>,
           \<lparr>suit = ''clubs'', value = 3, image = ''c03''\<rparr>,
           \<lparr>suit = ''hearts'', value = 2, image = ''h02''\<rparr>]"
proof -
  let ?X = "[\<lparr>suit = ''diamonds'', value = 7, image = ''d07''\<rparr>,
           \<lparr>suit = ''spades'', value = 12, image = ''s12''\<rparr>,
           \<lparr>suit = ''clubs'', value = 3, image = ''c03''\<rparr>,
           \<lparr>suit = ''hearts'', value = 2, image = ''h02''\<rparr>]"
  let ?Y = "[\<lparr>suit = ''spades'', value = 12, image = ''s12''\<rparr>,
           \<lparr>suit = ''diamonds'', value = 7, image = ''d07''\<rparr>,
           \<lparr>suit = ''clubs'', value = 3, image = ''c03''\<rparr>,
           \<lparr>suit = ''hearts'', value = 2, image = ''h02''\<rparr>]"
  have h1: "length ?X = 4" by simp
  have h2: "\<forall>c\<in>set ?X. getCardNumber c \<noteq> None" by (simp add: getCardNumber_simps)
  have h3: "distinct (map getCardNumber ?X)" by (simp add: getCardNumber_simps)
  have m: "mset ?Y = mset ?X" by (simp add: add_mset_commute)
  have ne: "?Y \<noteq> ?X" by simp
  note t = getPermutationNumber_range_injective [OF h1 h2 h3]
  from t m ne have "getPermutationNumber ?Y \<noteq> getPermutationNumber ?X" by blast
  with t h1 h3 show ?thesis by blast
qed

text \<open>
  The number the loop returns is 1 plus the counts weighted by the factorials of 3, 2, 1, 0.
\<close>

lemma lehmer_rank_counts:
  "lehmer_rank order =
     1 + lehmer_counts order ! 0 * factorial 3 + lehmer_counts order ! 1 * factorial 2
       + lehmer_counts order ! 2 * factorial 1 + lehmer_counts order ! 3 * factorial 0"
  by (simp add: lehmer_rank_def lehmer_counts_def upt4 lehmer_body_def Let_def)

text \<open>
  C4, as amended. The order 7 of diamonds (46), queen of spades (12), 3 of clubs (16),
  2 of hearts (28) has the canonical positions 3, 0, 1, 2, the counts 3, 0, 0, 0 and the
  permutation number 19, whatever the images of the four cards are.
\<close>

theorem concrete_scenario:
  "map getCardNumber
     [\<lparr>suit = ''diamonds'', value = 7, image = i1\<rparr>,
      \<lparr>suit = ''spades'', value = 12, image = i2\<rparr>,
      \<lparr>suit = ''clubs'', value = 3, image = i3\<rparr>,
      \<lparr>suit = ''hearts'', value = 2, image = i4\<rparr>] = [Some 46, Some 12, Some 16, Some 28] \<and>
   originalOrder
     [\<lparr>suit = ''diamonds'', value = 7, image = i1\<rparr>,
      \<lparr>suit = ''spades'', value = 12, image = i2\<rparr>,
      \<lparr>suit = ''clubs'', value = 3, image = i3\<rparr>,
      \<lparr>suit = ''hearts'', value = 2, image = i4\<rparr>] = [3, 0, 1, 2] \<and>
   lehmer_counts [3, 0, 1, 2] = [3, 0, 0, 0] \<and>
   getPermutationNumber
     [\<lparr>suit = ''diamonds'', value = 7, image = i1\<rparr>,
      \<lparr>suit = ''spades'', value = 12, image = i2\<rparr>,
      \<lparr>suit = ''clubs'', value = 3, image = i3\<rparr>,
      \<lparr>suit = ''hearts'', value = 2, image = i4\<rparr>] = 19"
proof -
  let ?O = "[\<lparr>suit = ''diamonds'', value = 7, image = i1\<rparr>,
      \<lparr>suit = ''spades'', value = 12, image = i2\<rparr>,
      \<lparr>suit = ''clubs'', value = 3, image = i3\<rparr>,
      \<lparr>suit = ''hearts'', value = 2, image = i4\<rparr>]"
  have ids: "map getCardNumber ?O = [Some 46, Some 12, Some 16, Some 28]"
    by (simp add: getCardNumber_simps)
  have pos: "originalOrder ?O = [3, 0, 1, 2]"
    by (simp add: originalOrder_def sorted_data_def cardData_of_def enumerate_eq_zip upt4
        by_number_def getCardNumber_simps num_sub_def cmp_le0_def findIndex_def)
  have cnt: "lehmer_counts [3, 0, 1, 2] = [3, 0, 0, 0]"
    by (simp add: lehmer_counts_def upt4 count_unused_values mark_used_values)
  have "lehmer_rank [3, 0, 1, 2] = 19"
    by (simp add: lehmer_rank_counts cnt factorial_values)
  with pos have "getPermutationNumber ?O = 19"
    by (simp add: getPermutationNumber_def)
  with ids pos cnt show ?thesis by blast
qed

text \<open>
  C4, as stated, gives the 3 of clubs the id 14. Clubs has the ordinal 1 in \<open>suitOrder\<close>,
  so its id is 3 + 13 = 16; 14 is the id of the ace of clubs.
\<close>

theorem three_of_clubs_id_counterexample:
  "getCardNumber \<lparr>suit = ''clubs'', value = 3, image = ''clubs03''\<rparr> = Some 16 \<and>
   getCardNumber \<lparr>suit = ''clubs'', value = 3, image = ''clubs03''\<rparr> \<noteq> Some 14"
  by (simp add: getCardNumber_simps)

text \<open>
  C10. A list whose length is not 4 gets the number 0 (not an error), below the
  documented range from 1 to 24.
\<close>

theorem getPermutationNumber_wrong_length:
  "length cards \<noteq> 4 \<Longrightarrow> getPermutationNumber cards = 0"
  by (simp add: getPermutationNumber_def)

theorem getPermutationNumber_wrong_length_witness:
  "length [\<lparr>suit = ''hearts'', value = 2, image = ''h02''\<rparr>] \<noteq> 4 \<and>
   getPermutationNumber [\<lparr>suit = ''hearts'', value = 2, image = ''h02''\<rparr>] = 0"
  using getPermutationNumber_wrong_length [of "[\<lparr>suit = ''hearts'', value = 2, image = ''h02''\<rparr>]"]
  by simp

section \<open>unrank against getPermutationNumber\<close>

lemma factorial_4: "factorial 4 = 24"
  by (simp add: factorial.simps)

lemma ranks24:
  "[1..24] = [1,2,3,4,5,6,7,8,9,10,11,12,13,14,15,16,17,18,19,20,21,22,23,24::int]"
  by code_simp

lemma in_ranks24:
  assumes "1 \<le> (r::int)" "r \<le> 24"
  shows "r \<in> set [1,2,3,4,5,6,7,8,9,10,11,12,13,14,15,16,17,18,19,20,21,22,23,24]"
proof -
  from assms have "r \<in> set [1..24]" by simp
  then show ?thesis unfolding ranks24 .
qed

lemma unrank_rank_positions_table:
  "map (\<lambda>P. map int (unrank_positions 4 (lehmer_rank P - 1) [0, 1, 2, 3])) perms4 = perms4"
  by code_simp

lemma rank_unrank_positions_table:
  "map (\<lambda>r. lehmer_rank (map int (unrank_positions 4 (r - 1) [0, 1, 2, 3])))
     [1,2,3,4,5,6,7,8,9,10,11,12,13,14,15,16,17,18,19,20,21,22,23,24]
   = [1,2,3,4,5,6,7,8,9,10,11,12,13,14,15,16,17,18,19,20,21,22,23,24]"
  by code_simp

lemma unrank_positions_sorted_table:
  "map (\<lambda>r. sort (unrank_positions 4 (r - 1) [0, 1, 2, 3]))
     [1,2,3,4,5,6,7,8,9,10,11,12,13,14,15,16,17,18,19,20,21,22,23,24]
   = replicate 24 [0, 1, 2, 3]"
  by code_simp

lemma map_fixed_point:
  assumes "map f xs = xs" "x \<in> set xs"
  shows "f x = x"
  using assms by (induction xs) auto

lemma map_constant:
  assumes "map f xs = replicate n c" "x \<in> set xs"
  shows "f x = c"
proof -
  from assms(2) have "f x \<in> set (map f xs)" by simp
  then show ?thesis unfolding assms(1) by simp
qed

lemma unrank_rank_positions:
  assumes "P \<in> set perms4"
  shows "map int (unrank_positions 4 (lehmer_rank P - 1) [0, 1, 2, 3]) = P"
  by (rule map_fixed_point [OF unrank_rank_positions_table assms])

lemma rank_unrank_positions:
  assumes "1 \<le> r" "r \<le> 24"
  shows "lehmer_rank (map int (unrank_positions 4 (r - 1) [0, 1, 2, 3])) = r"
  by (rule map_fixed_point [OF rank_unrank_positions_table in_ranks24 [OF assms]])

lemma unrank_positions_mset:
  assumes "1 \<le> r" "r \<le> 24"
  shows "mset (unrank_positions 4 (r - 1) [0, 1, 2, 3]) = mset [0, 1, 2, 3]"
proof -
  have "sort (unrank_positions 4 (r - 1) [0, 1, 2, 3]) = [0, 1, 2, 3]"
    by (rule map_constant [OF unrank_positions_sorted_table in_ranks24 [OF assms]])
  then have "mset (sort (unrank_positions 4 (r - 1) [0, 1, 2, 3])) = mset [0, 1, 2, 3]"
    by (rule arg_cong)
  then show ?thesis by (simp only: mset_sort)
qed

lemma canonical4_props:
  assumes "canonical4 C"
  shows "length C = 4" "\<forall>c\<in>set C. getCardNumber c \<noteq> None"
    "distinct (map card_id C)" "distinct (map getCardNumber C)" "sort_key card_id C = C"
proof -
  from assms show len: "length C = 4" and "\<forall>c\<in>set C. getCardNumber c \<noteq> None"
    by (simp_all add: canonical4_def list_all_iff)
  from assms have st: "sorted_wrt (<) (map card_id C)" by (simp add: canonical4_def)
  then show d: "distinct (map card_id C)" by (simp add: strict_sorted_iff)
  have "map card_id C = map the (map getCardNumber C)" by (simp add: card_id_def comp_def)
  with d show "distinct (map getCardNumber C)" by (metis distinct_map)
  from st have "sorted (map card_id C)" by (rule strict_sorted_imp_sorted)
  then show "sort_key card_id C = C" by (rule sort_key_id_if_sorted)
qed

lemma permutation_of_canonical:
  assumes C: "canonical4 C" and m: "mset cards = mset C"
  shows "length cards = 4" "\<forall>c\<in>set cards. getCardNumber c \<noteq> None"
    "distinct (map getCardNumber cards)" "sort_key card_id cards = C"
proof -
  note p = canonical4_props [OF C]
  show "length cards = 4" using m p(1) by (metis size_mset)
  show "\<forall>c\<in>set cards. getCardNumber c \<noteq> None" using m p(2) by (metis mset_eq_setD)
  have "mset (map getCardNumber cards) = mset (map getCardNumber C)" using m by simp
  with p(4) show "distinct (map getCardNumber cards)" by (metis mset_eq_imp_distinct_iff)
  show "sort_key card_id cards = C"
    using canon_of_permutation [OF m p(3)] p(5) by simp
qed

lemma unrank_in_range:
  assumes "length C = 4" "1 \<le> r" "r \<le> 24"
  shows "unrank r C = Inr (map (\<lambda>p. C ! p) (unrank_positions 4 (r - 1) [0, 1, 2, 3]))"
  using assms by (simp add: unrank_def factorial_4 upt4)

text \<open>
  C2. The unrank operation inverts the rank: for a canonical 4-set C, every ordering of C
  is what unrank returns for its permutation number, and every rank from 1 to 24 is the
  permutation number of the ordering that unrank returns for it.
\<close>

theorem unrank_inverts_getPermutationNumber:
  assumes C: "canonical4 C"
  shows "(\<forall>cards. mset cards = mset C \<longrightarrow> unrank (getPermutationNumber cards) C = Inr cards) \<and>
         (\<forall>r. 1 \<le> r \<and> r \<le> 24 \<longrightarrow>
            (\<exists>cards. unrank r C = Inr cards \<and> mset cards = mset C \<and>
                     getPermutationNumber cards = r))"
proof (intro conjI allI impI)
  note p = canonical4_props [OF C]
  fix cards assume m: "mset cards = mset C"
  note q = permutation_of_canonical [OF C m]
  have P: "originalOrder cards \<in> set perms4"
    and bk: "map (\<lambda>p. C ! nat p) (originalOrder cards) = cards"
    using originalOrder_props [OF q(1) q(2) q(3)] q(4) by simp_all
  have rk: "getPermutationNumber cards = lehmer_rank (originalOrder cards)"
    using q(1) by (simp add: getPermutationNumber_def)
  have "map (\<lambda>p. C ! p) (unrank_positions 4 (lehmer_rank (originalOrder cards) - 1) [0, 1, 2, 3])
        = map (\<lambda>p. C ! nat p)
            (map int (unrank_positions 4 (lehmer_rank (originalOrder cards) - 1) [0, 1, 2, 3]))"
    by (simp add: comp_def)
  also have "\<dots> = cards"
    unfolding unrank_rank_positions [OF P] by (rule bk)
  finally show "unrank (getPermutationNumber cards) C = Inr cards"
    using unrank_in_range [OF p(1)] lehmer_rank_range [OF P] rk by simp
next
  note p = canonical4_props [OF C]
  fix r :: int assume r: "1 \<le> r \<and> r \<le> 24"
  then have r1: "1 \<le> r" and r2: "r \<le> 24" by simp_all
  let ?Q = "unrank_positions 4 (r - 1) [0, 1, 2, 3]"
  let ?O = "map (\<lambda>p. C ! p) ?Q"
  have u: "unrank r C = Inr ?O" by (rule unrank_in_range [OF p(1) r1 r2])
  have mQ: "mset ?Q = mset [0, 1, 2, 3]" by (rule unrank_positions_mset [OF r1 r2])
  have "mset ?O = image_mset (\<lambda>p. C ! p) (mset ?Q)" by simp
  also have "\<dots> = mset (map (\<lambda>p. C ! p) [0..<length C])"
    unfolding mQ p(1) upt4 by simp
  also have "\<dots> = mset C" by (simp only: map_nth)
  finally have m: "mset ?O = mset C" .
  note q = permutation_of_canonical [OF C m]
  have lt: "\<forall>x\<in>set ?Q. x < 4"
  proof -
    have "set ?Q = set [0, 1, 2, 3::nat]" using mQ by (rule mset_eq_setD)
    then show ?thesis by auto
  qed
  have dC: "distinct C" using p(4) by (simp add: distinct_map)
  have "originalOrder ?O = map (\<lambda>c. findIndex (\<lambda>x. x = c) C) ?O"
    using originalOrder_canon [OF q(2)] q(4) by simp
  also have "\<dots> = map (\<lambda>x. findIndex (\<lambda>y. y = C ! x) C) ?Q"
    by (simp add: comp_def)
  also have "\<dots> = map int ?Q"
    using lt p(1) by (intro map_cong refl findIndex_nth [OF dC]) simp
  finally have "originalOrder ?O = map int ?Q" .
  then have "getPermutationNumber ?O = r"
    using q(1) rank_unrank_positions [OF r1 r2] by (simp add: getPermutationNumber_def)
  with u m show "\<exists>cards. unrank r C = Inr cards \<and> mset cards = mset C \<and>
                     getPermutationNumber cards = r" by blast
qed

theorem unrank_inverts_getPermutationNumber_witness:
  "canonical4 [\<lparr>suit = ''spades'', value = 12, image = ''s12''\<rparr>,
               \<lparr>suit = ''clubs'', value = 3, image = ''c03''\<rparr>,
               \<lparr>suit = ''hearts'', value = 2, image = ''h02''\<rparr>,
               \<lparr>suit = ''diamonds'', value = 7, image = ''d07''\<rparr>] \<and>
   unrank (getPermutationNumber
              [\<lparr>suit = ''diamonds'', value = 7, image = ''d07''\<rparr>,
               \<lparr>suit = ''spades'', value = 12, image = ''s12''\<rparr>,
               \<lparr>suit = ''clubs'', value = 3, image = ''c03''\<rparr>,
               \<lparr>suit = ''hearts'', value = 2, image = ''h02''\<rparr>])
          [\<lparr>suit = ''spades'', value = 12, image = ''s12''\<rparr>,
               \<lparr>suit = ''clubs'', value = 3, image = ''c03''\<rparr>,
               \<lparr>suit = ''hearts'', value = 2, image = ''h02''\<rparr>,
               \<lparr>suit = ''diamonds'', value = 7, image = ''d07''\<rparr>]
     = Inr [\<lparr>suit = ''diamonds'', value = 7, image = ''d07''\<rparr>,
               \<lparr>suit = ''spades'', value = 12, image = ''s12''\<rparr>,
               \<lparr>suit = ''clubs'', value = 3, image = ''c03''\<rparr>,
               \<lparr>suit = ''hearts'', value = 2, image = ''h02''\<rparr>] \<and>
   (\<exists>cards. unrank 19 [\<lparr>suit = ''spades'', value = 12, image = ''s12''\<rparr>,
               \<lparr>suit = ''clubs'', value = 3, image = ''c03''\<rparr>,
               \<lparr>suit = ''hearts'', value = 2, image = ''h02''\<rparr>,
               \<lparr>suit = ''diamonds'', value = 7, image = ''d07''\<rparr>] = Inr cards \<and>
            getPermutationNumber cards = 19)"
proof -
  let ?C = "[\<lparr>suit = ''spades'', value = 12, image = ''s12''\<rparr>,
               \<lparr>suit = ''clubs'', value = 3, image = ''c03''\<rparr>,
               \<lparr>suit = ''hearts'', value = 2, image = ''h02''\<rparr>,
               \<lparr>suit = ''diamonds'', value = 7, image = ''d07''\<rparr>]"
  let ?O = "[\<lparr>suit = ''diamonds'', value = 7, image = ''d07''\<rparr>,
               \<lparr>suit = ''spades'', value = 12, image = ''s12''\<rparr>,
               \<lparr>suit = ''clubs'', value = 3, image = ''c03''\<rparr>,
               \<lparr>suit = ''hearts'', value = 2, image = ''h02''\<rparr>]"
  have c: "canonical4 ?C"
    by (simp add: canonical4_def card_id_def getCardNumber_simps)
  have m: "mset ?O = mset ?C" by (simp add: add_mset_commute)
  have r: "(1::int) \<le> 19 \<and> (19::int) \<le> 24" by simp
  note t = unrank_inverts_getPermutationNumber [OF c]
  from t m have "unrank (getPermutationNumber ?O) ?C = Inr ?O" by blast
  moreover from t r have "\<exists>cards. unrank 19 ?C = Inr cards \<and> getPermutationNumber cards = 19"
    by blast
  ultimately show ?thesis using c by blast
qed

section \<open>The identity id of a card\<close>

lemma suitOrder_suits:
  "s \<in> set suits \<Longrightarrow> suitOrder s = Some (spec_ordinal s)"
  by (auto simp: suits_def suitOrder_def spec_ordinal_def spec_suit_order_def)

lemma spec_ordinal_range: "s \<in> set suits \<Longrightarrow> 0 \<le> spec_ordinal s \<and> spec_ordinal s \<le> 3"
  by (auto simp: suits_def spec_ordinal_def spec_suit_order_def)

lemma spec_ordinal_inj:
  "s \<in> set suits \<Longrightarrow> s' \<in> set suits \<Longrightarrow> spec_ordinal s = spec_ordinal s' \<Longrightarrow> s = s'"
  by (auto simp: suits_def spec_ordinal_def spec_suit_order_def)

lemma legal_card_number:
  assumes "legal_card c"
  shows "getCardNumber c = Some (value c + 13 * spec_ordinal (suit c))"
  using assms by (simp add: legal_card_def getCardNumber_def suitOrder_suits)

lemma legal_card_id_range:
  assumes "legal_card c"
  shows "1 \<le> card_id c \<and> card_id c \<le> 52"
  using assms legal_card_number [OF assms] spec_ordinal_range [of "suit c"]
  by (simp add: legal_card_def card_id_def)

lemma legal_card_inj:
  assumes "legal_card c" "legal_card c'" "getCardNumber c = getCardNumber c'"
  shows "identity c = identity c'"
proof -
  let ?k = "spec_ordinal (suit c)" and ?k' = "spec_ordinal (suit c')"
  from assms have e: "value c + 13 * ?k = value c' + 13 * ?k'"
    by (simp add: legal_card_number)
  from assms(1,2) have b: "1 \<le> value c" "value c \<le> 13" "1 \<le> value c'" "value c' \<le> 13"
    by (simp_all add: legal_card_def)
  from e b have "?k = ?k'" by arith
  with e assms(1,2) show ?thesis
    by (simp add: identity_def legal_card_def spec_ordinal_inj)
qed

lemma legal_card_onto:
  assumes "1 \<le> n" "n \<le> 52"
  shows "\<exists>c. legal_card c \<and> getCardNumber c = Some n"
proof -
  consider "n \<le> 13" | "13 < n" "n \<le> 26" | "26 < n" "n \<le> 39" | "39 < n" by linarith
  then show ?thesis
  proof cases
    case 1
    with assms have "legal_card \<lparr>suit = ''spades'', value = n, image = []\<rparr>"
      by (simp add: legal_card_def suits_def)
    then show ?thesis using getCardNumber_simps(1) by blast
  next
    case 2
    then have "legal_card \<lparr>suit = ''clubs'', value = n - 13, image = []\<rparr>"
      by (simp add: legal_card_def suits_def)
    moreover have "getCardNumber \<lparr>suit = ''clubs'', value = n - 13, image = []\<rparr> = Some n"
      by (simp add: getCardNumber_simps)
    ultimately show ?thesis by blast
  next
    case 3
    then have "legal_card \<lparr>suit = ''hearts'', value = n - 26, image = []\<rparr>"
      by (simp add: legal_card_def suits_def)
    moreover have "getCardNumber \<lparr>suit = ''hearts'', value = n - 26, image = []\<rparr> = Some n"
      by (simp add: getCardNumber_simps)
    ultimately show ?thesis by blast
  next
    case 4
    with assms have "legal_card \<lparr>suit = ''diamonds'', value = n - 39, image = []\<rparr>"
      by (simp add: legal_card_def suits_def)
    moreover have "getCardNumber \<lparr>suit = ''diamonds'', value = n - 39, image = []\<rparr> = Some n"
      by (simp add: getCardNumber_simps)
    ultimately show ?thesis by blast
  qed
qed

text \<open>
  C3. For a legal card (one of the four suits, value 1 to 13) getCardNumber is the value
  plus 13 times the ordinal of the suit in the order spades, clubs, hearts, diamonds; the
  id lies between 1 and 52, two legal cards with the same id have the same suit and value,
  and every number from 1 to 52 is the id of a legal card.
\<close>

theorem getCardNumber_bijection:
  "(\<forall>c. legal_card c \<longrightarrow>
       getCardNumber c = Some (value c + 13 * spec_ordinal (suit c)) \<and>
       1 \<le> card_id c \<and> card_id c \<le> 52) \<and>
   (\<forall>c c'. legal_card c \<and> legal_card c' \<and> getCardNumber c = getCardNumber c'
       \<longrightarrow> identity c = identity c') \<and>
   (\<forall>n. 1 \<le> n \<and> n \<le> 52 \<longrightarrow> (\<exists>c. legal_card c \<and> getCardNumber c = Some n))"
  using legal_card_number legal_card_id_range legal_card_inj legal_card_onto by blast

theorem getCardNumber_bijection_witness:
  "legal_card \<lparr>suit = ''hearts'', value = 2, image = ''hearts02''\<rparr> \<and>
   legal_card \<lparr>suit = ''clubs'', value = 3, image = ''clubs03''\<rparr> \<and>
   getCardNumber \<lparr>suit = ''hearts'', value = 2, image = ''hearts02''\<rparr> = Some 28 \<and>
   spec_ordinal ''hearts'' = 2 \<and>
   card_id \<lparr>suit = ''hearts'', value = 2, image = ''hearts02''\<rparr> \<le> 52 \<and>
   getCardNumber \<lparr>suit = ''hearts'', value = 2, image = ''hearts02''\<rparr> \<noteq>
   getCardNumber \<lparr>suit = ''clubs'', value = 3, image = ''clubs03''\<rparr> \<and>
   (\<exists>c. legal_card c \<and> getCardNumber c = Some 52)"
proof -
  let ?h = "\<lparr>suit = ''hearts'', value = 2, image = ''hearts02''\<rparr>"
  let ?c = "\<lparr>suit = ''clubs'', value = 3, image = ''clubs03''\<rparr>"
  have l: "legal_card ?h" "legal_card ?c" by (simp_all add: legal_card_def suits_def)
  have o: "spec_ordinal ''hearts'' = 2" by (simp add: spec_ordinal_def spec_suit_order_def)
  have d: "identity ?h \<noteq> identity ?c" by (simp add: identity_def)
  have r: "(1::int) \<le> 52 \<and> (52::int) \<le> 52" by simp
  note t = getCardNumber_bijection
  from t l(1) have "getCardNumber ?h = Some (value ?h + 13 * spec_ordinal (suit ?h))
      \<and> card_id ?h \<le> 52" by blast
  moreover from t l d have "getCardNumber ?h \<noteq> getCardNumber ?c" by blast
  moreover from t r have "\<exists>c. legal_card c \<and> getCardNumber c = Some 52" by blast
  ultimately show ?thesis using l o by simp
qed

section \<open>The handlers\<close>

lemma handleReorder_sorted:
  assumes "\<forall>c\<in>set xs. getCardNumber c \<noteq> None"
  shows "map fst (js_sort (\<lambda>a b. num_sub (snd a) (snd b)) (map (\<lambda>c. (c, getCardNumber c)) xs))
         = sort_key card_id xs"
proof -
  let ?ys = "map (\<lambda>c. (c, getCardNumber c)) xs"
  have "\<forall>b\<in>set ?ys. snd b \<noteq> None" using assms by auto
  then have "js_sort (\<lambda>a b. num_sub (snd a) (snd b)) ?ys = sort_key (\<lambda>x. the (snd x)) ?ys"
    by (rule js_sort_keyed)
  moreover have "map fst (sort_key (\<lambda>x. the (snd x)) ?ys) = sort_key card_id (map fst ?ys)"
    by (rule map_sort_key) (auto simp: card_id_def)
  moreover have "map fst ?ys = xs" by (simp add: comp_def)
  ultimately show ?thesis by simp
qed

lemma handleReorder_five:
  assumes "length (selectedCards s) = 5"
  shows "handleReorder s = s\<lparr>reorderedCards := selectedCards s ! 4 #
            map fst (js_sort (\<lambda>a b. num_sub (snd a) (snd b))
              (map (\<lambda>c. (c, getCardNumber c)) (take 4 (selectedCards s)))),
          gamePhase := reordered, showHiddenCard := False\<rparr>"
  using assms by (simp add: handleReorder_def Let_def)

lemma legal_cards_distinct_numbers:
  assumes "\<forall>c\<in>set xs. legal_card c" "distinct (map identity xs)"
  shows "distinct (map getCardNumber xs)"
proof -
  have "inj_on getCardNumber (set xs)"
  proof (rule inj_onI)
    fix x y assume xy: "x \<in> set xs" "y \<in> set xs" "getCardNumber x = getCardNumber y"
    with assms(1) have "identity x = identity y" by (intro legal_card_inj) auto
    with assms(2) xy show "x = y" by (auto simp: distinct_map dest: inj_onD)
  qed
  moreover from assms(2) have "distinct xs" by (simp add: distinct_map)
  ultimately show ?thesis by (simp add: distinct_map)
qed

text \<open>
  C5. With five distinct legal cards selected, handleReorder stores the fifth card first
  (the hidden card) and after it the first four in strictly ascending order of id, and sets
  the phase to reordered. The four displayed cards depend only on which four cards they are,
  not on the order they were selected in, hence not on the permutation number.
\<close>

theorem handleReorder_commits:
  assumes len: "length (selectedCards s) = 5"
    and legal: "\<forall>c\<in>set (selectedCards s). legal_card c"
    and dist: "distinct (map identity (selectedCards s))"
  shows "length (reorderedCards (handleReorder s)) = 5 \<and>
         reorderedCards (handleReorder s) ! 0 = selectedCards s ! 4 \<and>
         mset (drop 1 (reorderedCards (handleReorder s))) = mset (take 4 (selectedCards s)) \<and>
         sorted_wrt (<) (map card_id (drop 1 (reorderedCards (handleReorder s)))) \<and>
         gamePhase (handleReorder s) = reordered \<and>
         (\<forall>s'. length (selectedCards s') = 5 \<and>
               mset (take 4 (selectedCards s')) = mset (take 4 (selectedCards s)) \<longrightarrow>
               drop 1 (reorderedCards (handleReorder s')) = drop 1 (reorderedCards (handleReorder s)))"
proof -
  let ?four = "take 4 (selectedCards s)"
  have sub: "set ?four \<subseteq> set (selectedCards s)" by (rule set_take_subset)
  have valid: "\<forall>c\<in>set ?four. getCardNumber c \<noteq> None"
    using legal sub legal_card_number by fastforce
  have "distinct (map identity ?four)"
    using dist by (simp add: take_map [symmetric] distinct_take)
  then have dn: "distinct (map getCardNumber ?four)"
    using legal sub by (intro legal_cards_distinct_numbers) auto
  have dk: "distinct (map card_id ?four)" by (rule distinct_card_id [OF valid dn])
  have rc: "reorderedCards (handleReorder s) = selectedCards s ! 4 # sort_key card_id ?four"
    by (simp add: handleReorder_five [OF len] handleReorder_sorted [OF valid])
  have ph: "gamePhase (handleReorder s) = reordered"
    by (simp add: handleReorder_five [OF len])
  have "mset (map card_id (sort_key card_id ?four)) = mset (map card_id ?four)" by simp
  with dk have "distinct (map card_id (sort_key card_id ?four))"
    by (metis mset_eq_imp_distinct_iff)
  then have st: "sorted_wrt (<) (map card_id (sort_key card_id ?four))"
    by (simp add: strict_sorted_iff)
  have other: "drop 1 (reorderedCards (handleReorder s')) = drop 1 (reorderedCards (handleReorder s))"
    if l': "length (selectedCards s') = 5"
      and m': "mset (take 4 (selectedCards s')) = mset ?four" for s'
  proof -
    have v': "\<forall>c\<in>set (take 4 (selectedCards s')). getCardNumber c \<noteq> None"
      using valid m' by (metis mset_eq_setD)
    have "reorderedCards (handleReorder s')
          = selectedCards s' ! 4 # sort_key card_id (take 4 (selectedCards s'))"
      by (simp add: handleReorder_five [OF l'] handleReorder_sorted [OF v'])
    with rc canon_of_permutation [OF m' dk] show ?thesis by simp
  qed
  from rc ph st other len show ?thesis by simp
qed

theorem handleReorder_commits_witness:
  "length (selectedCards
      \<lparr>deck = [], selectedCards =
          [\<lparr>suit = ''diamonds'', value = 7, image = ''d07''\<rparr>,
           \<lparr>suit = ''spades'', value = 12, image = ''s12''\<rparr>,
           \<lparr>suit = ''clubs'', value = 3, image = ''c03''\<rparr>,
           \<lparr>suit = ''hearts'', value = 2, image = ''h02''\<rparr>,
           \<lparr>suit = ''spades'', value = 1, image = ''s01''\<rparr>],
        reorderedCards = [], gamePhase = selection, isLoading = False,
        showHiddenCard = False\<rparr>) = 5 \<and>
   reorderedCards (handleReorder
      \<lparr>deck = [], selectedCards =
          [\<lparr>suit = ''diamonds'', value = 7, image = ''d07''\<rparr>,
           \<lparr>suit = ''spades'', value = 12, image = ''s12''\<rparr>,
           \<lparr>suit = ''clubs'', value = 3, image = ''c03''\<rparr>,
           \<lparr>suit = ''hearts'', value = 2, image = ''h02''\<rparr>,
           \<lparr>suit = ''spades'', value = 1, image = ''s01''\<rparr>],
        reorderedCards = [], gamePhase = selection, isLoading = False,
        showHiddenCard = False\<rparr>) ! 0 = \<lparr>suit = ''spades'', value = 1, image = ''s01''\<rparr> \<and>
   sorted_wrt (<) (map card_id (drop 1 (reorderedCards (handleReorder
      \<lparr>deck = [], selectedCards =
          [\<lparr>suit = ''diamonds'', value = 7, image = ''d07''\<rparr>,
           \<lparr>suit = ''spades'', value = 12, image = ''s12''\<rparr>,
           \<lparr>suit = ''clubs'', value = 3, image = ''c03''\<rparr>,
           \<lparr>suit = ''hearts'', value = 2, image = ''h02''\<rparr>,
           \<lparr>suit = ''spades'', value = 1, image = ''s01''\<rparr>],
        reorderedCards = [], gamePhase = selection, isLoading = False,
        showHiddenCard = False\<rparr>)))) \<and>
   gamePhase (handleReorder
      \<lparr>deck = [], selectedCards =
          [\<lparr>suit = ''diamonds'', value = 7, image = ''d07''\<rparr>,
           \<lparr>suit = ''spades'', value = 12, image = ''s12''\<rparr>,
           \<lparr>suit = ''clubs'', value = 3, image = ''c03''\<rparr>,
           \<lparr>suit = ''hearts'', value = 2, image = ''h02''\<rparr>,
           \<lparr>suit = ''spades'', value = 1, image = ''s01''\<rparr>],
        reorderedCards = [], gamePhase = selection, isLoading = False,
        showHiddenCard = False\<rparr>) = reordered"
proof -
  let ?s = "\<lparr>deck = [], selectedCards =
          [\<lparr>suit = ''diamonds'', value = 7, image = ''d07''\<rparr>,
           \<lparr>suit = ''spades'', value = 12, image = ''s12''\<rparr>,
           \<lparr>suit = ''clubs'', value = 3, image = ''c03''\<rparr>,
           \<lparr>suit = ''hearts'', value = 2, image = ''h02''\<rparr>,
           \<lparr>suit = ''spades'', value = 1, image = ''s01''\<rparr>],
        reorderedCards = [], gamePhase = selection, isLoading = False,
        showHiddenCard = False\<rparr>"
  have h1: "length (selectedCards ?s) = 5" by simp
  have h2: "\<forall>c\<in>set (selectedCards ?s). legal_card c" by (simp add: legal_card_def suits_def)
  have h3: "distinct (map identity (selectedCards ?s))" by (simp add: identity_def)
  have e: "selectedCards ?s ! 4 = \<lparr>suit = ''spades'', value = 1, image = ''s01''\<rparr>" by simp
  from handleReorder_commits [OF h1 h2 h3] h1 show ?thesis unfolding e by blast
qed

text \<open>
  C6. handleCardClick changes nothing outside the selection phase, with five cards
  selected, or for a card whose suit and value are already selected; handleReorder changes
  nothing with fewer than five cards, so the phase stays what it was; handleReset always
  ends in the selection phase with no card selected, whatever the engine's sort returns.
\<close>

theorem illegal_transitions_are_noops:
  "((gamePhase s \<noteq> selection \<or> 5 \<le> length (selectedCards s) \<or>
      identity c \<in> set (map identity (selectedCards s))) \<longrightarrow> handleCardClick c s = s) \<and>
   (length (selectedCards s) < 5 \<longrightarrow>
      handleReorder s = s \<and> gamePhase (handleReorder s) = gamePhase s) \<and>
   selectedCards (fst (handleReset sort_array s g)) = [] \<and>
   gamePhase (fst (handleReset sort_array s g)) = selection"
proof (intro conjI impI)
  assume "gamePhase s \<noteq> selection \<or> 5 \<le> length (selectedCards s) \<or>
      identity c \<in> set (map identity (selectedCards s))"
  moreover have "list_ex (\<lambda>c'. suit c' = suit c \<and> value c' = value c) (selectedCards s)"
    if "identity c \<in> set (map identity (selectedCards s))"
    using that by (auto simp: list_ex_iff identity_def)
  ultimately show "handleCardClick c s = s"
    by (auto simp: handleCardClick_def)
next
  assume "length (selectedCards s) < 5"
  then show "handleReorder s = s" "gamePhase (handleReorder s) = gamePhase s"
    by (simp_all add: handleReorder_def)
next
  show "selectedCards (fst (handleReset sort_array s g)) = []"
    "gamePhase (fst (handleReset sort_array s g)) = selection"
    by (simp_all add: handleReset_def split: prod.splits)
qed

theorem illegal_transitions_are_noops_witness:
  "5 \<le> length (selectedCards
      \<lparr>deck = [], selectedCards =
          [\<lparr>suit = ''diamonds'', value = 7, image = ''d07''\<rparr>,
           \<lparr>suit = ''spades'', value = 12, image = ''s12''\<rparr>,
           \<lparr>suit = ''clubs'', value = 3, image = ''c03''\<rparr>,
           \<lparr>suit = ''hearts'', value = 2, image = ''h02''\<rparr>,
           \<lparr>suit = ''spades'', value = 1, image = ''s01''\<rparr>],
        reorderedCards = [], gamePhase = selection, isLoading = False,
        showHiddenCard = False\<rparr>) \<and>
   handleCardClick \<lparr>suit = ''hearts'', value = 13, image = ''h13''\<rparr>
      \<lparr>deck = [], selectedCards =
          [\<lparr>suit = ''diamonds'', value = 7, image = ''d07''\<rparr>,
           \<lparr>suit = ''spades'', value = 12, image = ''s12''\<rparr>,
           \<lparr>suit = ''clubs'', value = 3, image = ''c03''\<rparr>,
           \<lparr>suit = ''hearts'', value = 2, image = ''h02''\<rparr>,
           \<lparr>suit = ''spades'', value = 1, image = ''s01''\<rparr>],
        reorderedCards = [], gamePhase = selection, isLoading = False,
        showHiddenCard = False\<rparr> =
      \<lparr>deck = [], selectedCards =
          [\<lparr>suit = ''diamonds'', value = 7, image = ''d07''\<rparr>,
           \<lparr>suit = ''spades'', value = 12, image = ''s12''\<rparr>,
           \<lparr>suit = ''clubs'', value = 3, image = ''c03''\<rparr>,
           \<lparr>suit = ''hearts'', value = 2, image = ''h02''\<rparr>,
           \<lparr>suit = ''spades'', value = 1, image = ''s01''\<rparr>],
        reorderedCards = [], gamePhase = selection, isLoading = False,
        showHiddenCard = False\<rparr> \<and>
   length (selectedCards
      \<lparr>deck = [], selectedCards = [\<lparr>suit = ''diamonds'', value = 7, image = ''d07''\<rparr>],
        reorderedCards = [], gamePhase = selection, isLoading = False,
        showHiddenCard = False\<rparr>) < 5 \<and>
   handleReorder
      \<lparr>deck = [], selectedCards = [\<lparr>suit = ''diamonds'', value = 7, image = ''d07''\<rparr>],
        reorderedCards = [], gamePhase = selection, isLoading = False,
        showHiddenCard = False\<rparr> =
      \<lparr>deck = [], selectedCards = [\<lparr>suit = ''diamonds'', value = 7, image = ''d07''\<rparr>],
        reorderedCards = [], gamePhase = selection, isLoading = False,
        showHiddenCard = False\<rparr> \<and>
   selectedCards (fst (handleReset (\<lambda>cmp d g. (d, g))
      \<lparr>deck = [], selectedCards = [\<lparr>suit = ''diamonds'', value = 7, image = ''d07''\<rparr>],
        reorderedCards = [], gamePhase = selection, isLoading = False,
        showHiddenCard = False\<rparr> (\<lambda>n. 0, 0))) = []"
proof -
  let ?s5 = "\<lparr>deck = [], selectedCards =
          [\<lparr>suit = ''diamonds'', value = 7, image = ''d07''\<rparr>,
           \<lparr>suit = ''spades'', value = 12, image = ''s12''\<rparr>,
           \<lparr>suit = ''clubs'', value = 3, image = ''c03''\<rparr>,
           \<lparr>suit = ''hearts'', value = 2, image = ''h02''\<rparr>,
           \<lparr>suit = ''spades'', value = 1, image = ''s01''\<rparr>],
        reorderedCards = [], gamePhase = selection, isLoading = False,
        showHiddenCard = False\<rparr>"
  let ?s1 = "\<lparr>deck = [], selectedCards = [\<lparr>suit = ''diamonds'', value = 7, image = ''d07''\<rparr>],
        reorderedCards = [], gamePhase = selection, isLoading = False,
        showHiddenCard = False\<rparr>"
  let ?k = "\<lparr>suit = ''hearts'', value = 13, image = ''h13''\<rparr>"
  have h5: "5 \<le> length (selectedCards ?s5)" by simp
  have h1: "length (selectedCards ?s1) < 5" by simp
  from illegal_transitions_are_noops [of ?s5 ?k] h5 have a: "handleCardClick ?k ?s5 = ?s5"
    by blast
  from illegal_transitions_are_noops [of ?s1] h1 have b: "handleReorder ?s1 = ?s1"
    by blast
  from illegal_transitions_are_noops [of ?s1 _ "\<lambda>cmp d g. (d, g)" "(\<lambda>n. 0, 0)"]
  have c: "selectedCards (fst (handleReset (\<lambda>cmp d g. (d, g)) ?s1 (\<lambda>n. 0, 0))) = []" by blast
  from h5 a h1 b c show ?thesis by blast
qed

section \<open>The deck\<close>

lemma imagePath_examples: "imagePath_of ''clubs'' 1 = ''./assets/clubs01.png''"
   "imagePath_of ''spades'' 13 = ''./assets/spades13.png''"
  by code_simp+

lemma push_card_append: "push_card cardImages s i cards = cards @ one_card cardImages s i"
  by (simp add: push_card_def one_card_def has_image_def split: option.splits)

lemma fold_push_card:
  "fold (push_card cardImages s) is cards = cards @ concat (map (one_card cardImages s) is)"
  by (induction "is" arbitrary: cards) (simp_all add: push_card_append)

lemma fold_suits:
  "fold (\<lambda>s. fold (push_card cardImages s) is) ss cards
     = cards @ concat (map (\<lambda>s. concat (map (one_card cardImages s) is)) ss)"
  by (induction ss arbitrary: cards) (simp_all add: fold_push_card)

lemma generate_cards_concat:
  "generate_cards cardImages
     = concat (map (\<lambda>s. concat (map (one_card cardImages s) [1..<14])) suits)"
  by (simp add: generate_cards_def fold_suits)

lemma identity_one_card:
  "map identity (one_card cardImages s i)
     = filter (\<lambda>(s, v). has_image cardImages s (nat v)) [(s, int i)]"
  by (simp add: one_card_def identity_def)

lemma identity_row:
  "map identity (concat (map (one_card cardImages s) is))
     = filter (\<lambda>(s, v). has_image cardImages s (nat v)) (map (\<lambda>i. (s, int i)) is)"
  by (induction "is") (simp_all add: one_card_def identity_def)

lemma identity_rows:
  "map identity (concat (map (\<lambda>s. concat (map (one_card cardImages s) is)) ss))
     = filter (\<lambda>(s, v). has_image cardImages s (nat v))
         (concat (map (\<lambda>s. map (\<lambda>i. (s, int i)) is) ss))"
  by (induction ss) (simp_all add: identity_row)

lemma generate_cards_identities:
  "map identity (generate_cards cardImages)
     = filter (\<lambda>(s, v). has_image cardImages s (nat v)) all_pairs"
  by (simp add: generate_cards_concat all_pairs_def identity_rows)

lemma upt_1_14: "[1..<14] = [1, 2, 3, 4, 5, 6, 7, 8, 9, 10, 11, 12, 13]"
  by (simp add: upt_rec)

lemma length_all_pairs: "length all_pairs = 52"
  by (simp add: all_pairs_def suits_def upt_1_14)

lemma distinct_all_pairs: "distinct all_pairs"
  by (auto simp: all_pairs_def suits_def distinct_map inj_on_def)

lemma all_pairs_members:
  "(s, v) \<in> set all_pairs \<Longrightarrow> s \<in> set suits \<and> nat v \<in> {1..13}"
  by (auto simp: all_pairs_def)

text \<open>
  C8, as amended. Before shuffling, the generated cards are the pairs of suit and value
  in the order of the nested loops (suit outer, value inner) that have an image; when all
  52 images are present these are exactly 52 cards with distinct identities, all pairs in
  that order.
\<close>

theorem generate_cards_complete:
  "map identity (generate_cards cardImages)
     = filter (\<lambda>(s, v). has_image cardImages s (nat v)) all_pairs \<and>
   ((\<forall>s\<in>set suits. \<forall>i\<in>{1..13}. has_image cardImages s i) \<longrightarrow>
      length (generate_cards cardImages) = 52 \<and>
      distinct (map identity (generate_cards cardImages)) \<and>
      map identity (generate_cards cardImages) = all_pairs)"
proof (intro conjI impI)
  show g: "map identity (generate_cards cardImages)
     = filter (\<lambda>(s, v). has_image cardImages s (nat v)) all_pairs"
    by (rule generate_cards_identities)
  assume all: "\<forall>s\<in>set suits. \<forall>i\<in>{1..13}. has_image cardImages s i"
  have "filter (\<lambda>(s, v). has_image cardImages s (nat v)) all_pairs = all_pairs"
    using all all_pairs_members by (intro filter_True) auto
  with g show e: "map identity (generate_cards cardImages) = all_pairs" by simp
  then show "distinct (map identity (generate_cards cardImages))"
    by (simp add: distinct_all_pairs)
  from e have "length (map identity (generate_cards cardImages)) = length all_pairs" by simp
  then show "length (generate_cards cardImages) = 52" by (simp add: length_all_pairs)
qed

theorem generate_cards_complete_witness:
  "has_image (\<lambda>p. Some ''url'') ''clubs'' 1 \<and>
   length (generate_cards (\<lambda>p. Some ''url'')) = 52 \<and>
   map identity (generate_cards (\<lambda>p. Some ''url'')) = all_pairs"
proof -
  have h: "\<forall>s\<in>set suits. \<forall>i\<in>{1..13}. has_image (\<lambda>p. Some ''url'') s i"
    by (simp add: has_image_def)
  have "has_image (\<lambda>p. Some ''url'') ''clubs'' 1" by (simp add: has_image_def)
  with generate_cards_complete [of "\<lambda>p. Some ''url''"] h show ?thesis by blast
qed

text \<open>
  C8, as stated, has 52 cards always. The loop body pushes a card only if its image is
  found: with the image of the king of spades missing, 51 cards are generated.
\<close>

theorem generate_cards_missing_asset_counterexample:
  "length (generate_cards
      (\<lambda>p. if p = ''./assets/spades13.png'' then None else Some ''url'')) = 51 \<and>
   length (generate_cards
      (\<lambda>p. if p = ''./assets/spades13.png'' then None else Some ''url'')) \<noteq> 52"
  by code_simp

text \<open>
  C9. The toggle negates showHiddenCard and leaves the deck, the selected cards, the
  reordered cards, the phase and the loading flag as they are; toggling twice restores the
  state.
\<close>

theorem toggleReveal_frame:
  "showHiddenCard (toggleReveal s) = (\<not> showHiddenCard s) \<and>
   deck (toggleReveal s) = deck s \<and>
   selectedCards (toggleReveal s) = selectedCards s \<and>
   reorderedCards (toggleReveal s) = reorderedCards s \<and>
   gamePhase (toggleReveal s) = gamePhase s \<and>
   isLoading (toggleReveal s) = isLoading s \<and>
   toggleReveal (toggleReveal s) = s"
  by (simp add: toggleReveal_def)

end
